theory Spec2Isabelle
  imports Main "HOL-Library.Sublist"
begin

section \<open>Bytes, strings and the failure predicate\<close>

text \<open>
  A Python \<open>bytes\<close> value is a list of 8-bit characters. Member names are modelled as
  byte strings too; \<open>lower\<close> maps the ASCII letters A-Z to a-z and leaves every other
  byte alone, which is what \<open>bytes.lower()\<close> does and what \<open>str.lower()\<close> does on the
  characters that can take part in the suffix \<open>.log\<close>.
\<close>

type_synonym bytes = string

definition ascii_uppercase :: string where
  "ascii_uppercase = ''ABCDEFGHIJKLMNOPQRSTUVWXYZ''"

definition ascii_lowercase :: string where
  "ascii_lowercase = ''abcdefghijklmnopqrstuvwxyz''"

definition lower_char :: "char \<Rightarrow> char" where
  "lower_char c =
     (case map_of (zip ascii_uppercase ascii_lowercase) c of
        None \<Rightarrow> c
      | Some d \<Rightarrow> d)"

definition lower :: "string \<Rightarrow> string" where
  "lower s = map lower_char s"

text \<open>\<open>needle in haystack\<close> for bytes: the needle occurs as a contiguous block.\<close>

fun contains :: "'a list \<Rightarrow> 'a list \<Rightarrow> bool" where
  "contains needle [] = (needle = [])"
| "contains needle (y # ys) = (prefix needle (y # ys) \<or> contains needle ys)"

text \<open>\<open>s.endswith(suf)\<close>\<close>

definition endswith :: "'a list \<Rightarrow> 'a list \<Rightarrow> bool" where
  "endswith s suf = (length suf \<le> length s \<and> drop (length s - length suf) s = suf)"

text \<open>\<open>_contains_fail\<close> of Observer_v2.py and Observer_v3.py: \<open>b"fail" in buf.lower()\<close>.\<close>

definition contains_fail :: "bytes \<Rightarrow> bool" where
  "contains_fail buf = contains ''fail'' (lower buf)"

text \<open>
  \<open>_contains_fail\<close> of Observer.py: \<open>keyword.encode("utf-8") in buf.lower()\<close> with the
  module constant \<open>keyword = "test failed"\<close>.
\<close>

definition keyword :: string where
  "keyword = ''test failed''"

definition contains_fail_v1 :: "bytes \<Rightarrow> bool" where
  "contains_fail_v1 buf = contains keyword (lower buf)"

section \<open>Paths (pathlib, POSIX flavour)\<close>

text \<open>
  A path is the tuple \<open>Path.parts\<close>: the root (\<open>/\<close> or \<open>//\<close>) first when the path is
  absolute, then the components. Parsing a string splits it at \<open>/\<close> and drops empty
  components and \<open>.\<close>; a \<open>..\<close> component is kept, as pathlib keeps it.
\<close>

type_synonym path = "string list"

fun split_slash :: "string \<Rightarrow> string list" where
  "split_slash [] = [[]]"
| "split_slash (c # cs) =
     (if c = CHR ''/'' then [] # split_slash cs
      else (case split_slash cs of
              [] \<Rightarrow> [[c]]
            | w # ws \<Rightarrow> (c # w) # ws))"

definition path_root :: "string \<Rightarrow> string list" where
  "path_root s =
     (if prefix ''//'' s \<and> \<not> prefix ''///'' s then [''//'']
      else if prefix ''/'' s then [''/'']
      else [])"

definition path_segments :: "string \<Rightarrow> string list" where
  "path_segments s = filter (\<lambda>c. c \<noteq> [] \<and> c \<noteq> ''.'') (split_slash s)"

definition Path :: "string \<Rightarrow> path" where
  "Path s = path_root s @ path_segments s"

text \<open>\<open>Path(s).name\<close>: the last component, or the empty string when there is none.\<close>

definition path_name :: "string \<Rightarrow> string" where
  "path_name s = (case path_segments s of [] \<Rightarrow> [] | _ \<Rightarrow> last (path_segments s))"

text \<open>\<open>p / s\<close>: an absolute right operand replaces the left one, otherwise its parts are appended.\<close>

definition joinpath :: "path \<Rightarrow> string \<Rightarrow> path" where
  "joinpath p s = (if path_root s \<noteq> [] then Path s else p @ Path s)"

fun join_slash :: "string list \<Rightarrow> string" where
  "join_slash [] = []"
| "join_slash [c] = c"
| "join_slash (c # cs) = c @ ''/'' @ join_slash cs"

text \<open>\<open>str(p)\<close>\<close>

definition path_str :: "path \<Rightarrow> string" where
  "path_str p =
     (case p of
        [] \<Rightarrow> ''.''
      | r # rest \<Rightarrow> if r = ''/'' \<or> r = ''//'' then r @ join_slash rest else join_slash p)"

section \<open>Archives and the extraction engine\<close>

text \<open>
  The exceptions the code can meet: opening the archive raises \<open>FileNotFoundError\<close> or
  \<open>zipfile.BadZipFile\<close>; reading one entry raises when the entry is corrupt, encrypted
  or compressed by an unsupported method; writing a file raises \<open>OSError\<close> (name too
  long, permission denied, no space left). Each carries its message, \<open>str(exc)\<close>.
\<close>

datatype py_exception =
    FileNotFoundError string
  | BadZipFile string
  | MemberError string
  | OSError string

fun exc_str :: "py_exception \<Rightarrow> string" where
  "exc_str (FileNotFoundError s) = s"
| "exc_str (BadZipFile s) = s"
| "exc_str (MemberError s) = s"
| "exc_str (OSError s) = s"

text \<open>
  What \<open>out_path.write_bytes(buf)\<close> does: it writes the bytes, or it raises. When it raises
  before the file is opened the file system is as before (\<open>Failed exc None\<close>); when it
  raises after the file was opened for writing, the file holds what got written until then
  (\<open>Failed exc (Some part)\<close>).
\<close>

datatype write_outcome =
    Written
  | Failed py_exception "bytes option"

text \<open>
  One \<open>ZipInfo\<close> of \<open>z.infolist()\<close>, together with what \<open>z.open(member).read()\<close> gives for
  it: the bytes, or the exception raised. \<open>is_dir\<close> is the answer of \<open>member.is_dir()\<close>;
  the library reads it off the name, the model leaves it free.
\<close>

record zip_info =
  filename :: string
  is_dir :: bool
  data :: "py_exception + bytes"

text \<open>
  The world an extraction task runs in: what \<open>zipfile.ZipFile(path, "r")\<close> gives for each
  path (the entry table, or the exception raised), what \<open>write_bytes\<close> does for each path and
  content, the regular files on disk, and the lines printed to standard error. Directories
  are not tracked: \<open>mkdir(parents=True, exist_ok=True)\<close> leaves the files as they are.
\<close>

record world =
  archives :: "path \<Rightarrow> py_exception + zip_info list"
  write_bytes :: "path \<Rightarrow> bytes \<Rightarrow> write_outcome"
  files :: "path \<rightharpoonup> bytes"
  stderr :: "string list"

text \<open>
  The loop of \<open>extract_failed_logs\<close>, driven to exhaustion as every caller does. The
  result is the list of yielded paths, the files afterwards, and the exception that ended
  the loop, if one did: nothing in the loop catches the exception of a read or of a write.
\<close>

fun scan_members ::
  "(path \<Rightarrow> bytes \<Rightarrow> write_outcome) \<Rightarrow> path \<Rightarrow> zip_info list \<Rightarrow> (path \<rightharpoonup> bytes)
     \<Rightarrow> path list \<times> (path \<rightharpoonup> bytes) \<times> py_exception option"
where
  "scan_members wr out_dir [] fs = ([], fs, None)"
| "scan_members wr out_dir (member # rest) fs =
     (if \<not> endswith (lower (filename member)) ''.log'' \<or> is_dir member
      then scan_members wr out_dir rest fs
      else (case data member of
              Inl exc \<Rightarrow> ([], fs, Some exc)
            | Inr buf \<Rightarrow>
                if contains_fail buf
                then (case wr (joinpath out_dir (path_name (filename member))) buf of
                        Failed exc None \<Rightarrow> ([], fs, Some exc)
                      | Failed exc (Some part) \<Rightarrow>
                          ([], fs(joinpath out_dir (path_name (filename member)) \<mapsto> part),
                           Some exc)
                      | Written \<Rightarrow>
                          (case scan_members wr out_dir rest
                                  (fs(joinpath out_dir (path_name (filename member)) \<mapsto> buf)) of
                             (ys, fs', r) \<Rightarrow>
                               (joinpath out_dir (path_name (filename member)) # ys, fs', r)))
                else scan_members wr out_dir rest fs))"

definition extract_failed_logs ::
  "world \<Rightarrow> path \<Rightarrow> path \<Rightarrow> path list \<times> (path \<rightharpoonup> bytes) \<times> py_exception option"
where
  "extract_failed_logs w archive_path out_dir =
     (case archives w archive_path of
        Inl exc \<Rightarrow> ([], files w, Some exc)
      | Inr members \<Rightarrow> scan_members (write_bytes w) out_dir members (files w))"

text \<open>
  \<open>ZipEventHandler._process_zip\<close>: the task run by the pool. Every exception of the
  extraction is caught and printed; the task itself returns normally.
\<close>

definition process_zip :: "path \<Rightarrow> path \<Rightarrow> world \<Rightarrow> world" where
  "process_zip root_out archive w =
     (case extract_failed_logs w archive (joinpath root_out ''fail'') of
        (ys, fs', None) \<Rightarrow> w\<lparr>files := fs'\<rparr>
      | (ys, fs', Some exc) \<Rightarrow>
          w\<lparr>files := fs',
            stderr := stderr w @
              [''[ERROR] Failed to process '' @ path_str archive @ '': '' @ exc_str exc]\<rparr>)"

text \<open>The pool, serving the submitted archives one after the other.\<close>

fun run_tasks :: "path \<Rightarrow> path list \<Rightarrow> world \<Rightarrow> world" where
  "run_tasks root_out [] w = w"
| "run_tasks root_out (archive # rest) w = run_tasks root_out rest (process_zip root_out archive w)"

section \<open>The stability probe and the event handler\<close>

text \<open>
  Time is the reading of \<open>time.time()\<close> in milliseconds. The watched file is given by what
  a probe sees at each instant: \<open>None\<close> when \<open>p.exists()\<close> is false, \<open>Some n\<close> when the
  file exists with \<open>st_size = n\<close>. \<open>time.sleep(d)\<close> advances the clock by \<open>d\<close>; the other
  statements take no time, so \<open>p.exists()\<close> and the two \<open>p.stat()\<close> calls between two
  sleeps see the file at the same instant.
\<close>

type_synonym observations = "int \<Rightarrow> nat option"

text \<open>
  The \<open>while\<close> loop of \<open>_wait_until_stable\<close>. The loop can run forever, so the function is
  partial: \<open>None\<close> is "never returns", \<open>Some (b, t)\<close> is "returns \<open>b\<close> at time \<open>t\<close>".
\<close>

partial_function (option) wait_loop ::
  "observations \<Rightarrow> int \<Rightarrow> int \<Rightarrow> nat \<Rightarrow> int \<Rightarrow> int \<Rightarrow> (bool \<times> int) option"
where
  "wait_loop f timeout poll_interval sz start now =
     (if now - start < timeout
      then (case f (now + poll_interval) of
              None \<Rightarrow> Some (False, now + poll_interval)
            | Some sz' \<Rightarrow>
                if sz' \<noteq> sz
                then wait_loop f timeout poll_interval sz' (now + poll_interval) (now + poll_interval)
                else wait_loop f timeout poll_interval sz start (now + poll_interval))
      else Some (True, now))"

definition wait_until_stable :: "observations \<Rightarrow> int \<Rightarrow> int \<Rightarrow> int \<Rightarrow> (bool \<times> int) option" where
  "wait_until_stable f timeout poll_interval now =
     (case f now of
        None \<Rightarrow> Some (False, now)
      | Some sz \<Rightarrow> wait_loop f timeout poll_interval sz now now)"

text \<open>The defaults of \<open>_wait_until_stable\<close> and the class constant, in milliseconds.\<close>

definition default_timeout :: int where
  "default_timeout = 2000"

definition default_poll_interval :: int where
  "default_poll_interval = 100"

definition DEBOUNCE_SECONDS :: int where
  "DEBOUNCE_SECONDS = 1000"

text \<open>
  The handler's state: the dictionary \<open>_last_processed\<close>, the calls of
  \<open>self._executor.submit(self._process_zip, archive)\<close> in order, each with the clock reading
  at the call, and the clock of the thread that runs the callbacks.
\<close>

record handler =
  last_processed :: "path \<rightharpoonup> int"
  submitted :: "(path \<times> int) list"
  clock :: int

text \<open>\<open>ZipEventHandler._enqueue\<close>; \<open>None\<close> when the stability probe never returns.\<close>

definition enqueue :: "(path \<Rightarrow> observations) \<Rightarrow> path \<Rightarrow> handler \<Rightarrow> handler option" where
  "enqueue env archive h =
     (if clock h - (case last_processed h archive of None \<Rightarrow> 0 | Some last_t \<Rightarrow> last_t)
           < DEBOUNCE_SECONDS
      then Some h
      else (case wait_until_stable (env archive) default_timeout default_poll_interval (clock h) of
              None \<Rightarrow> None
            | Some (ok, t) \<Rightarrow>
                if \<not> ok then Some (h\<lparr>clock := t\<rparr>)
                else Some (h\<lparr>last_processed := (last_processed h)(archive \<mapsto> clock h),
                            submitted := submitted h @ [(archive, t)],
                            clock := t\<rparr>)))"

text \<open>
  One observer thread that has the handler to itself. It hands the queued events for
  \<open>.zip\<close> files to the handler one at a time: an event that arrived at time \<open>t\<close> is
  handled at \<open>t\<close>, or when the callback before it has returned, whichever is later.
\<close>

fun deliver :: "(path \<Rightarrow> observations) \<Rightarrow> (int \<times> path) list \<Rightarrow> handler \<Rightarrow> handler option" where
  "deliver env [] h = Some h"
| "deliver env ((t, archive) # events) h =
     (case enqueue env archive (h\<lparr>clock := max (clock h) t\<rparr>) of
        None \<Rightarrow> None
      | Some h' \<Rightarrow> deliver env events h')"

text \<open>
  \<open>ZipMonitor.start\<close> starts one observer thread per watch folder and gives them all the
  same handler; \<open>_enqueue\<close> takes no lock. So a thread that runs \<open>_enqueue\<close> finds in
  \<open>_last_processed\<close> whatever any thread stored before. What one call does, as the calling
  thread sees it, depends on the dictionary only through the value \<open>last_t\<close> that
  \<open>self._last_processed.get(archive, 0)\<close> returns.
\<close>

datatype outcome = Dropped | Abandoned int | Submitted int

definition enqueue_outcome :: "observations \<Rightarrow> int \<Rightarrow> int \<Rightarrow> outcome option" where
  "enqueue_outcome f last_t now =
     (if now - last_t < DEBOUNCE_SECONDS
      then Some Dropped
      else (case wait_until_stable f default_timeout default_poll_interval now of
              None \<Rightarrow> None
            | Some (ok, t) \<Rightarrow> if \<not> ok then Some (Abandoned t) else Some (Submitted t)))"



section \<open>Vocabulary of the properties\<close>

text \<open>A member that passes the name filter of the loop, so that its content is read.\<close>

definition log_member :: "zip_info \<Rightarrow> bool" where
  "log_member m = (endswith (lower (filename m)) ''.log'' \<and> \<not> is_dir m)"

definition unreadable :: "zip_info \<Rightarrow> bool" where
  "unreadable m = (log_member m \<and> isl (data m))"

definition member_bytes :: "zip_info \<Rightarrow> bytes" where
  "member_bytes m = (case data m of Inl exc \<Rightarrow> [] | Inr buf \<Rightarrow> buf)"

text \<open>A member that qualifies for extraction: it passes the name filter and its bytes hold the keyword.\<close>

definition hit :: "zip_info \<Rightarrow> bool" where
  "hit m = (log_member m \<and> (case data m of Inl exc \<Rightarrow> False | Inr buf \<Rightarrow> contains_fail buf))"

definition dest :: "path \<Rightarrow> zip_info \<Rightarrow> path" where
  "dest out_dir m = out_dir @ [path_name (filename m)]"

text \<open>A qualifying member whose write raises.\<close>

definition write_fails :: "(path \<Rightarrow> bytes \<Rightarrow> write_outcome) \<Rightarrow> path \<Rightarrow> zip_info \<Rightarrow> bool" where
  "write_fails wr out_dir m = (hit m \<and> wr (dest out_dir m) (member_bytes m) \<noteq> Written)"

text \<open>A member at which the loop ends: its read raises, or its write does.\<close>

definition stops :: "(path \<Rightarrow> bytes \<Rightarrow> write_outcome) \<Rightarrow> path \<Rightarrow> zip_info \<Rightarrow> bool" where
  "stops wr out_dir m = (unreadable m \<or> write_fails wr out_dir m)"

text \<open>The members the loop gets through: those before the first one at which it ends.\<close>

definition reached :: "(path \<Rightarrow> bytes \<Rightarrow> write_outcome) \<Rightarrow> path \<Rightarrow> zip_info list \<Rightarrow> zip_info list" where
  "reached wr out_dir ms = takeWhile (\<lambda>m. \<not> stops wr out_dir m) ms"

text \<open>The exception of the member at which the loop ends, if there is one.\<close>

definition stop_error :: "(path \<Rightarrow> bytes \<Rightarrow> write_outcome) \<Rightarrow> path \<Rightarrow> zip_info \<Rightarrow> py_exception option" where
  "stop_error wr out_dir m =
     (case data m of
        Inl exc \<Rightarrow> Some exc
      | Inr buf \<Rightarrow>
          (case wr (dest out_dir m) buf of
             Written \<Rightarrow> None
           | Failed exc part \<Rightarrow> Some exc))"

definition scan_error :: "(path \<Rightarrow> bytes \<Rightarrow> write_outcome) \<Rightarrow> path \<Rightarrow> zip_info list \<Rightarrow> py_exception option" where
  "scan_error wr out_dir ms =
     (case dropWhile (\<lambda>m. \<not> stops wr out_dir m) ms of
        [] \<Rightarrow> None
      | m # rest \<Rightarrow> stop_error wr out_dir m)"

text \<open>What the member at which the loop ends leaves on disk: the part a failed write got out.\<close>

definition stop_trace ::
  "(path \<Rightarrow> bytes \<Rightarrow> write_outcome) \<Rightarrow> path \<Rightarrow> zip_info \<Rightarrow> (path \<rightharpoonup> bytes) \<Rightarrow> (path \<rightharpoonup> bytes)"
where
  "stop_trace wr out_dir m fs =
     (case data m of
        Inl exc \<Rightarrow> fs
      | Inr buf \<Rightarrow>
          (case wr (dest out_dir m) buf of
             Written \<Rightarrow> fs
           | Failed exc None \<Rightarrow> fs
           | Failed exc (Some part) \<Rightarrow> fs(dest out_dir m \<mapsto> part)))"

definition leftover ::
  "(path \<Rightarrow> bytes \<Rightarrow> write_outcome) \<Rightarrow> path \<Rightarrow> zip_info list \<Rightarrow> (path \<rightharpoonup> bytes) \<Rightarrow> (path \<rightharpoonup> bytes)"
where
  "leftover wr out_dir ms fs =
     (case dropWhile (\<lambda>m. \<not> stops wr out_dir m) ms of
        [] \<Rightarrow> fs
      | m # rest \<Rightarrow> stop_trace wr out_dir m fs)"

text \<open>Copying members to their destinations, one after the other.\<close>

fun write_all :: "path \<Rightarrow> zip_info list \<Rightarrow> (path \<rightharpoonup> bytes) \<Rightarrow> (path \<rightharpoonup> bytes)" where
  "write_all out_dir [] fs = fs"
| "write_all out_dir (m # ms) fs = write_all out_dir ms (fs(dest out_dir m \<mapsto> member_bytes m))"

text \<open>
  Path confinement: \<open>p\<close> lies below \<open>root\<close>, and no component below \<open>root\<close> is empty, \<open>.\<close>,
  \<open>..\<close> or holds a separator.
\<close>

definition strictly_inside :: "path \<Rightarrow> path \<Rightarrow> bool" where
  "strictly_inside root p =
     (strict_prefix root p \<and>
      (\<forall>c \<in> set (drop (length root) p).
         c \<noteq> [] \<and> c \<noteq> ''.'' \<and> c \<noteq> ''..'' \<and> CHR ''/'' \<notin> set c))"



section \<open>Example inputs\<close>

definition file_entry :: "string \<Rightarrow> py_exception + bytes \<Rightarrow> zip_info" where
  "file_entry n d = \<lparr>filename = n, is_dir = False, data = d\<rparr>"

text \<open>
  A world with one archive at \<open>archive\<close>, no file written yet and nothing printed. A write
  raises when the last component of the path is longer than 255 bytes, the limit of the
  usual file systems, and succeeds otherwise.
\<close>

definition name_limit :: "path \<Rightarrow> bytes \<Rightarrow> write_outcome" where
  "name_limit p buf =
     (if p \<noteq> [] \<and> 255 < length (last p) then Failed (OSError ''File name too long'') None
      else Written)"

definition world_with :: "path \<Rightarrow> py_exception + zip_info list \<Rightarrow> world" where
  "world_with archive z =
     \<lparr>archives = (\<lambda>p. if p = archive then z else Inl (FileNotFoundError (path_str p))),
      write_bytes = name_limit,
      files = Map.empty,
      stderr = []\<rparr>"




definition run42 :: path where
  "run42 = [''/'', ''watch'', ''run42.zip'']"

definition root_out :: path where
  "root_out = [''/'', ''out'']"

definition traversal_zip :: "zip_info list" where
  "traversal_zip = [file_entry ''../../etc/cron.d/Evil.LOG'' (Inr ''echo fail'')]"

definition scenario_zip :: "zip_info list" where
  "scenario_zip =
     [file_entry ''boot.log'' (Inr ''...FAIL: timeout...''),
      file_entry ''env.log'' (Inr ''...OK...'')]"



definition broken_middle_zip :: "zip_info list" where
  "broken_middle_zip =
     [file_entry ''a.log'' (Inr ''fail early''),
      file_entry ''bad.log'' (Inl (MemberError ''Bad CRC-32 for file bad.log'')),
      file_entry ''c.log'' (Inr ''FAIL late'')]"


definition shadowed_zip :: "zip_info list" where
  "shadowed_zip =
     [file_entry ''d1/x.log'' (Inr ''fail one''),
      file_entry ''bad.log'' (Inl (MemberError ''Bad CRC-32 for file bad.log'')),
      file_entry ''d2/x.log'' (Inr ''fail two'')]"

definition fresh_handler :: "int \<Rightarrow> handler" where
  "fresh_handler t = \<lparr>last_processed = Map.empty, submitted = [], clock = t\<rparr>"

text \<open>Files as a probe sees them: one that never changes, one that grows until 5500 and
  then rests, one that grows for ever, and one that is removed at 6000.\<close>

definition steady_file :: "path \<Rightarrow> observations" where
  "steady_file p t = Some 10"

definition growing_then_steady :: "path \<Rightarrow> observations" where
  "growing_then_steady p t = Some (if t < 5500 then nat t else 5500)"

definition ever_growing :: "path \<Rightarrow> observations" where
  "ever_growing p t = Some (nat t)"

definition vanishing_file :: "path \<Rightarrow> observations" where
  "vanishing_file p t = (if t < 6000 then Some 10 else None)"

section \<open>Facts about paths and the scan\<close>

lemma split_slash_nonempty: "split_slash s \<noteq> []"
  by (induction s) (auto split: list.splits)

lemma split_slash_no_slash: "w \<in> set (split_slash s) \<Longrightarrow> CHR ''/'' \<notin> set w"
  by (induction s arbitrary: w) (auto split: list.splits if_splits)

lemma split_slash_plain: "CHR ''/'' \<notin> set t \<Longrightarrow> split_slash t = [t]"
  by (induction t) auto

lemma last_split_slash_append:
  "CHR ''/'' \<notin> set t \<Longrightarrow> last (split_slash (s @ t)) = last (split_slash s) @ t"
proof (induction s)
  case Nil
  then show ?case by (simp add: split_slash_plain)
next
  case (Cons c s)
  obtain w ws where a: "split_slash (s @ t) = w # ws"
    using split_slash_nonempty [of "s @ t"] by (cases "split_slash (s @ t)") auto
  obtain v vs where b: "split_slash s = v # vs"
    using split_slash_nonempty [of s] by (cases "split_slash s") auto
  have len: "length (split_slash (s @ t)) = length (split_slash s)"
    using Cons.prems
  proof (induction s)
    case Nil
    then show ?case by (simp add: split_slash_plain)
  next
    case (Cons d s)
    then show ?case
      using split_slash_nonempty [of "s @ t"] split_slash_nonempty [of s]
      by (auto split: list.splits)
  qed
  have "ws = [] \<longleftrightarrow> vs = []" using len a b by auto
  then show ?case using Cons a b by auto
qed

lemma lower_char_slash: "lower_char c = CHR ''/'' \<Longrightarrow> c = CHR ''/''"
  by (auto simp: lower_char_def ascii_uppercase_def ascii_lowercase_def split: option.splits if_splits)

lemma log_suffix_split:
  assumes "endswith (lower f) ''.log''"
  shows "\<exists>pre t. f = pre @ t \<and> length t = 4 \<and> CHR ''/'' \<notin> set t"
proof -
  let ?t = "drop (length f - 4) f"
  have len: "4 \<le> length f" and d: "drop (length f - 4) (lower f) = ''.log''"
    using assms by (auto simp: endswith_def lower_def eval_nat_numeral)
  have lt: "map lower_char ?t = ''.log''" using d by (simp add: lower_def drop_map)
  have "CHR ''/'' \<notin> set ?t"
  proof
    assume "CHR ''/'' \<in> set ?t"
    then have "lower_char CHR ''/'' \<in> set (map lower_char ?t)" by (metis image_eqI set_map) 
    moreover have "lower_char CHR ''/'' = CHR ''/''"
      by (simp add: lower_char_def ascii_uppercase_def ascii_lowercase_def)
    ultimately show False using lt by simp
  qed
  moreover have "length ?t = 4" using len by simp
  moreover have "f = take (length f - 4) f @ ?t" by simp
  ultimately show ?thesis by blast
qed

lemma last_filter_keep: "xs \<noteq> [] \<Longrightarrow> P (last xs) \<Longrightarrow> last (filter P xs) = last xs"
  by (induction xs) (auto simp: filter_empty_conv)

lemma log_name:
  assumes "endswith (lower f) ''.log''"
  shows "path_name f \<noteq> [] \<and> path_name f \<noteq> ''.'' \<and> path_name f \<noteq> ''..''
         \<and> CHR ''/'' \<notin> set (path_name f) \<and> joinpath out_dir (path_name f) = out_dir @ [path_name f]"
proof -
  obtain pre t where f: "f = pre @ t" and t: "length t = 4" "CHR ''/'' \<notin> set t"
    using log_suffix_split [OF assms] by blast
  let ?n = "last (split_slash f)"
  have n: "?n = last (split_slash pre) @ t" using f t by (simp add: last_split_slash_append)
  then have len: "4 \<le> length ?n" using t by simp
  have ne: "?n \<noteq> []" "?n \<noteq> ''.''" "?n \<noteq> ''..''" using len by auto
  have mem: "?n \<in> set (split_slash f)" using split_slash_nonempty [of f] by simp
  have ns: "CHR ''/'' \<notin> set ?n" using split_slash_no_slash [OF mem] .
  have "last (filter (\<lambda>c. c \<noteq> [] \<and> c \<noteq> ''.'') (split_slash f)) = ?n"
    using split_slash_nonempty [of f] ne by (simp add: last_filter_keep)
  moreover have "filter (\<lambda>c. c \<noteq> [] \<and> c \<noteq> ''.'') (split_slash f) \<noteq> []"
    using mem ne by (auto simp: filter_empty_conv)
  ultimately have pn: "path_name f = ?n"
    by (auto simp: path_name_def path_segments_def split: list.splits)
  have root: "path_root ?n = []"
    using ns ne by (cases ?n) (auto simp: path_root_def)
  have "Path ?n = [?n]"
    using ns ne root by (simp add: Path_def path_segments_def split_slash_plain)
  then show ?thesis using pn ne ns root by (simp add: joinpath_def)
qed

lemma dest_is_join:
  "log_member m \<Longrightarrow> joinpath out_dir (path_name (filename m)) = dest out_dir m"
  using log_name [of "filename m" out_dir] by (simp add: log_member_def dest_def)

lemma hit_log_member: "hit m \<Longrightarrow> log_member m"
  by (simp add: hit_def)

lemma stops_log_member: "stops wr out_dir m \<Longrightarrow> log_member m"
  by (auto simp: stops_def unreadable_def write_fails_def hit_def)

lemma scan_members_skip:
  "\<not> log_member m \<Longrightarrow> scan_members wr out_dir (m # ms) fs = scan_members wr out_dir ms fs"
  by (auto simp: log_member_def)

lemma scan_members_unreadable:
  "log_member m \<Longrightarrow> data m = Inl exc \<Longrightarrow> scan_members wr out_dir (m # ms) fs = ([], fs, Some exc)"
  by (auto simp: log_member_def)

lemma scan_members_miss:
  "log_member m \<Longrightarrow> data m = Inr buf \<Longrightarrow> \<not> contains_fail buf \<Longrightarrow>
   scan_members wr out_dir (m # ms) fs = scan_members wr out_dir ms fs"
  by (auto simp: log_member_def)

lemma scan_members_written:
  assumes "log_member m" "data m = Inr buf" "contains_fail buf" "wr (dest out_dir m) buf = Written"
  shows "scan_members wr out_dir (m # ms) fs =
     (case scan_members wr out_dir ms (fs(dest out_dir m \<mapsto> buf)) of
        (ys, fs', r) \<Rightarrow> (dest out_dir m # ys, fs', r))"
  using assms dest_is_join [OF assms(1), of out_dir] by (auto simp: log_member_def)

lemma scan_members_failed:
  assumes "log_member m" "data m = Inr buf" "contains_fail buf" "wr (dest out_dir m) buf = Failed exc part"
  shows "scan_members wr out_dir (m # ms) fs =
     ([], (case part of None \<Rightarrow> fs | Some b \<Rightarrow> fs(dest out_dir m \<mapsto> b)), Some exc)"
  using assms dest_is_join [OF assms(1), of out_dir]
  by (cases part) (auto simp: log_member_def)

lemma scan_go:
  assumes "\<not> stops wr out_dir m"
  shows "reached wr out_dir (m # ms) = m # reached wr out_dir ms"
    and "leftover wr out_dir (m # ms) fs = leftover wr out_dir ms fs"
    and "scan_error wr out_dir (m # ms) = scan_error wr out_dir ms"
  using assms by (simp_all add: reached_def leftover_def scan_error_def)

lemma scan_stop:
  assumes "stops wr out_dir m"
  shows "reached wr out_dir (m # ms) = []"
    and "leftover wr out_dir (m # ms) fs = stop_trace wr out_dir m fs"
    and "scan_error wr out_dir (m # ms) = stop_error wr out_dir m"
  using assms by (simp_all add: reached_def leftover_def scan_error_def)

lemma scan_members_char:
  "scan_members wr out_dir ms fs =
     (map (dest out_dir) (filter hit (reached wr out_dir ms)),
      leftover wr out_dir ms (write_all out_dir (filter hit (reached wr out_dir ms)) fs),
      scan_error wr out_dir ms)"
proof (induction ms arbitrary: fs)
  case Nil
  then show ?case by (simp add: reached_def scan_error_def leftover_def)
next
  case (Cons m ms)
  show ?case
  proof (cases "log_member m")
    case False
    then have ns: "\<not> stops wr out_dir m" "\<not> hit m"
      using stops_log_member hit_log_member by blast+
    show ?thesis
      unfolding scan_members_skip [OF False] scan_go [OF ns(1)] Cons using ns(2) by simp
  next
    case True
    note lm = this
    show ?thesis
    proof (cases "data m")
      case (Inl exc)
      then have st: "stops wr out_dir m" using lm by (simp add: stops_def unreadable_def)
      show ?thesis
        unfolding scan_members_unreadable [OF lm Inl] scan_stop [OF st]
        using Inl by (simp add: stop_error_def stop_trace_def)
    next
      case (Inr buf)
      note d = this
      have mb: "member_bytes m = buf" using d by (simp add: member_bytes_def)
      have nu: "\<not> unreadable m" using d by (simp add: unreadable_def)
      show ?thesis
      proof (cases "contains_fail buf")
        case False
        then have nh: "\<not> hit m" using d by (simp add: hit_def)
        then have ns: "\<not> stops wr out_dir m" using nu by (simp add: stops_def write_fails_def)
        show ?thesis
          unfolding scan_members_miss [OF lm d False] scan_go [OF ns] Cons using nh by simp
      next
        case True
        then have h: "hit m" using lm d by (simp add: hit_def)
        show ?thesis
        proof (cases "wr (dest out_dir m) buf")
          case Written
          then have ns: "\<not> stops wr out_dir m" using nu mb by (simp add: stops_def write_fails_def)
          have step: "scan_members wr out_dir (m # ms) fs =
              (case scan_members wr out_dir ms (fs(dest out_dir m \<mapsto> buf)) of
                 (ys, fs', r) \<Rightarrow> (dest out_dir m # ys, fs', r))"
            using lm d True Written by (rule scan_members_written)
          have w: "write_all out_dir (filter hit (m # reached wr out_dir ms)) fs =
              write_all out_dir (filter hit (reached wr out_dir ms)) (fs(dest out_dir m \<mapsto> buf))"
            using h mb by simp
          show ?thesis unfolding step scan_go [OF ns] w Cons using h by simp
        next
          case (Failed exc part)
          then have st: "stops wr out_dir m" using h mb by (simp add: stops_def write_fails_def)
          have step: "scan_members wr out_dir (m # ms) fs =
              ([], (case part of None \<Rightarrow> fs | Some b \<Rightarrow> fs(dest out_dir m \<mapsto> b)), Some exc)"
            using lm d True Failed by (rule scan_members_failed)
          show ?thesis unfolding step scan_stop [OF st]
            using d Failed by (cases part) (simp_all add: stop_error_def stop_trace_def fun_upd_def)
        qed
      qed
    qed
  qed
qed

lemma dest_inside: "log_member m \<Longrightarrow> strictly_inside out_dir (dest out_dir m)"
  using log_name [of "filename m" out_dir]
  by (auto simp: log_member_def strictly_inside_def dest_def strict_prefix_def)

lemma write_all_last:
  "write_all out_dir hs fs p =
     (case filter (\<lambda>m. dest out_dir m = p) hs of
        [] \<Rightarrow> fs p
      | d # ds \<Rightarrow> Some (member_bytes (last (d # ds))))"
proof (induction hs arbitrary: fs)
  case Nil
  then show ?case by simp
next
  case (Cons h hs)
  show ?case
    by (cases "filter (\<lambda>m. dest out_dir m = p) hs") (auto simp: Cons)
qed

lemma write_all_frame:
  "p \<notin> set (map (dest out_dir) hs) \<Longrightarrow> write_all out_dir hs fs p = fs p"
proof -
  assume "p \<notin> set (map (dest out_dir) hs)"
  then have "filter (\<lambda>m. dest out_dir m = p) hs = []"
    by (auto simp: filter_empty_conv)
  then show ?thesis by (simp add: write_all_last)
qed


lemma extract_char:
  "archives w archive_path = Inr ms \<Longrightarrow>
   extract_failed_logs w archive_path out_dir =
     (map (dest out_dir) (filter hit (reached (write_bytes w) out_dir ms)),
      leftover (write_bytes w) out_dir ms
        (write_all out_dir (filter hit (reached (write_bytes w) out_dir ms)) (files w)),
      scan_error (write_bytes w) out_dir ms)"
  by (simp add: extract_failed_logs_def scan_members_char)


lemma stops_has_error: "stops wr out_dir m \<Longrightarrow> \<exists>e. stop_error wr out_dir m = Some e"
proof -
  assume "stops wr out_dir m"
  then consider "unreadable m" | "write_fails wr out_dir m" by (auto simp: stops_def)
  then show ?thesis
  proof cases
    case 1
    then obtain exc where "data m = Inl exc" by (cases "data m") (auto simp: unreadable_def)
    then show ?thesis by (simp add: stop_error_def)
  next
    case 2
    then obtain buf where b: "data m = Inr buf" by (cases "data m") (auto simp: write_fails_def hit_def)
    then have "wr (dest out_dir m) buf \<noteq> Written" using 2 by (simp add: write_fails_def member_bytes_def)
    then show ?thesis using b by (cases "wr (dest out_dir m) buf") (simp_all add: stop_error_def)
  qed
qed

lemma first_stop:
  assumes "dropWhile (\<lambda>m. \<not> stops wr out_dir m) ms = x # xs"
  shows "stops wr out_dir x" and "x \<in> set ms"
proof -
  have "x = hd (dropWhile (\<lambda>m. \<not> stops wr out_dir m) ms)" using assms by simp
  moreover have "dropWhile (\<lambda>m. \<not> stops wr out_dir m) ms \<noteq> []" using assms by simp
  ultimately show "stops wr out_dir x" using hd_dropWhile [of "\<lambda>m. \<not> stops wr out_dir m" ms] by blast
  have "x \<in> set (dropWhile (\<lambda>m. \<not> stops wr out_dir m) ms)" using assms by simp
  then show "x \<in> set ms" by (rule set_dropWhileD)
qed

lemma scan_error_none:
  assumes "scan_error wr out_dir ms = None"
  shows "\<forall>m \<in> set ms. \<not> stops wr out_dir m"
proof (cases "dropWhile (\<lambda>m. \<not> stops wr out_dir m) ms")
  case Nil
  then show ?thesis by (simp add: dropWhile_eq_Nil_conv)
next
  case (Cons x xs)
  from first_stop(1) [OF Cons] stops_has_error obtain e where "stop_error wr out_dir x = Some e" by blast
  moreover have "scan_error wr out_dir ms = stop_error wr out_dir x" unfolding scan_error_def Cons by simp
  ultimately show ?thesis using assms by simp
qed

lemma stop_trace_changes:
  assumes "stop_trace wr out_dir m fs p \<noteq> fs p"
  shows "hit m \<and> p = dest out_dir m \<or> \<not> stops wr out_dir m"
proof (cases "data m")
  case (Inl exc)
  then show ?thesis using assms by (simp add: stop_trace_def)
next
  case (Inr buf)
  show ?thesis
  proof (cases "stops wr out_dir m")
    case False
    then show ?thesis by simp
  next
    case True
    then have "hit m" using Inr by (auto simp: stops_def unreadable_def write_fails_def)
    moreover have "p = dest out_dir m"
      using assms Inr
      by (auto simp: stop_trace_def split: write_outcome.splits option.splits if_splits)
    ultimately show ?thesis by simp
  qed
qed

lemma leftover_changes:
  assumes "leftover wr out_dir ms fs p \<noteq> fs p"
  shows "\<exists>m \<in> set ms. hit m \<and> p = dest out_dir m"
proof (cases "dropWhile (\<lambda>m. \<not> stops wr out_dir m) ms")
  case Nil
  have "leftover wr out_dir ms fs = fs" unfolding leftover_def Nil by simp
  then show ?thesis using assms by simp
next
  case (Cons x xs)
  have "leftover wr out_dir ms fs = stop_trace wr out_dir x fs" unfolding leftover_def Cons by simp
  then have "stop_trace wr out_dir x fs p \<noteq> fs p" using assms by simp
  from stop_trace_changes [OF this] first_stop [OF Cons] show ?thesis by blast
qed

lemma reached_subset: "set (reached wr out_dir ms) \<subseteq> set ms"
  by (auto simp: reached_def dest: set_takeWhileD)

lemma extract_touches_hits_only:
  assumes "archives w archive_path = Inr ms"
    and "extract_failed_logs w archive_path out_dir = (ys, fs', r)"
  shows "(\<forall>p \<in> set ys. \<exists>m \<in> set ms. hit m \<and> p = dest out_dir m)
       \<and> (\<forall>p. fs' p \<noteq> files w p \<longrightarrow> (\<exists>m \<in> set ms. hit m \<and> p = dest out_dir m))"
proof -
  let ?wr = "write_bytes w"
  let ?H = "filter hit (reached ?wr out_dir ms)"
  have e: "ys = map (dest out_dir) ?H"
      "fs' = leftover ?wr out_dir ms (write_all out_dir ?H (files w))"
    using assms extract_char [OF assms(1), of out_dir] by simp_all
  have sub: "set ?H \<subseteq> {m \<in> set ms. hit m}" using reached_subset [of ?wr out_dir ms] by auto
  have a: "\<exists>m \<in> set ms. hit m \<and> p = dest out_dir m" if "p \<in> set ys" for p
    using that e(1) sub by auto
  have b: "\<exists>m \<in> set ms. hit m \<and> p = dest out_dir m" if "fs' p \<noteq> files w p" for p
  proof (cases "leftover ?wr out_dir ms (write_all out_dir ?H (files w)) p
                  = write_all out_dir ?H (files w) p")
    case False
    then show ?thesis by (rule leftover_changes)
  next
    case True
    then have "write_all out_dir ?H (files w) p \<noteq> files w p" using that e(2) by simp
    then have "p \<in> set (map (dest out_dir) ?H)"
      using write_all_frame [of p out_dir ?H "files w"] by blast
    then show ?thesis using sub by auto
  qed
  show ?thesis using a b by blast
qed


section \<open>Path confinement\<close>

lemma join_fail: "joinpath root ''fail'' = root @ [''fail'']"
  by (simp add: joinpath_def Path_def path_root_def path_segments_def)

lemma inside_subdir:
  assumes "strictly_inside (root @ [c]) p" and "c \<noteq> []" "c \<noteq> ''.''" "c \<noteq> ''..''" "CHR ''/'' \<notin> set c"
  shows "strictly_inside root p"
proof -
  from assms(1) obtain zs where p: "p = (root @ [c]) @ zs" and zs: "zs \<noteq> []"
    and comps: "\<forall>x \<in> set (drop (length (root @ [c])) p). x \<noteq> [] \<and> x \<noteq> ''.'' \<and> x \<noteq> ''..'' \<and> CHR ''/'' \<notin> set x"
    by (auto simp: strictly_inside_def strict_prefix_def prefix_def)
  have d: "drop (length root) p = c # zs" using p by simp
  have d': "drop (length (root @ [c])) p = zs" using p by simp
  have "strict_prefix root p" using p by (simp add: strict_prefix_def prefix_def)
  then show ?thesis using comps assms(2-5) unfolding strictly_inside_def d d' by simp
qed

lemma extract_confined_aux:
  assumes "extract_failed_logs w archive_path out_dir = (ys, fs', r)"
  shows "(\<forall>p \<in> set ys. \<exists>ms m. archives w archive_path = Inr ms \<and> m \<in> set ms
              \<and> p = joinpath out_dir (path_name (filename m))
              \<and> p = out_dir @ [path_name (filename m)]
              \<and> strictly_inside out_dir p)
       \<and> (\<forall>p. fs' p \<noteq> files w p \<longrightarrow> strictly_inside out_dir p)"
proof (cases "archives w archive_path")
  case (Inl exc)
  then show ?thesis using assms by (auto simp: extract_failed_logs_def)
next
  case (Inr ms)
  note t = extract_touches_hits_only [OF Inr assms]
  have k: "p = joinpath out_dir (path_name (filename m)) \<and> p = out_dir @ [path_name (filename m)]
           \<and> strictly_inside out_dir p" if "hit m" "p = dest out_dir m" for p m
    using that dest_is_join [of m out_dir] dest_inside [of m out_dir]
    by (simp add: hit_log_member dest_def)
  have a: "\<exists>ms' m. archives w archive_path = Inr ms' \<and> m \<in> set ms'
              \<and> p = joinpath out_dir (path_name (filename m))
              \<and> p = out_dir @ [path_name (filename m)]
              \<and> strictly_inside out_dir p" if "p \<in> set ys" for p
  proof -
    from t that obtain m where "m \<in> set ms" "hit m" "p = dest out_dir m" by blast
    then show ?thesis using k Inr by blast
  qed
  have b: "strictly_inside out_dir p" if "fs' p \<noteq> files w p" for p
  proof -
    from t that obtain m where "m \<in> set ms" "hit m" "p = dest out_dir m" by blast
    then show ?thesis using k by blast
  qed
  show ?thesis using a b by blast
qed

lemma process_zip_files:
  "files (process_zip root archive w) = fst (snd (extract_failed_logs w archive (joinpath root ''fail'')))"
  by (simp add: process_zip_def split: prod.splits option.splits)

text \<open>
  Claim C2. Whatever the archive holds, every path that \<open>extract_failed_logs\<close> yields is
  the output directory joined with the base name of one member and nothing else: the
  output directory followed by that single component. The component is not empty, not
  \<open>.\<close>, not \<open>..\<close> and holds no separator, so the path lies strictly inside the output
  directory, and so does every path whose content the extraction changed. A member name
  with parent-directory segments or directory components makes no difference. For the
  task \<open>_process_zip\<close> the output directory is \<open>root_out / "fail"\<close>, and every path it
  changes lies strictly inside it and strictly inside \<open>root_out\<close>.
\<close>
theorem extract_paths_confined:
  assumes "extract_failed_logs w archive_path out_dir = (ys, fs', r)"
  shows "(\<forall>p \<in> set ys. \<exists>ms m. archives w archive_path = Inr ms \<and> m \<in> set ms
              \<and> p = joinpath out_dir (path_name (filename m))
              \<and> p = out_dir @ [path_name (filename m)]
              \<and> strictly_inside out_dir p)
       \<and> (\<forall>p. fs' p \<noteq> files w p \<longrightarrow> strictly_inside out_dir p)
       \<and> (\<forall>p. files (process_zip root_dir archive_path w) p \<noteq> files w p \<longrightarrow>
              strictly_inside (joinpath root_dir ''fail'') p \<and> strictly_inside root_dir p)"
proof -
  obtain ys1 fs1 r1 where
    e: "extract_failed_logs w archive_path (joinpath root_dir ''fail'') = (ys1, fs1, r1)"
    by (cases "extract_failed_logs w archive_path (joinpath root_dir ''fail'')") auto
  have f: "files (process_zip root_dir archive_path w) = fs1"
    by (simp add: process_zip_files e)
  have "strictly_inside (joinpath root_dir ''fail'') p \<and> strictly_inside root_dir p"
    if "files (process_zip root_dir archive_path w) p \<noteq> files w p" for p
  proof -
    have a: "strictly_inside (joinpath root_dir ''fail'') p"
      using extract_confined_aux [OF e] that f by simp
    then have "strictly_inside (root_dir @ [''fail'']) p" by (simp add: join_fail)
    then have "strictly_inside root_dir p" by (rule inside_subdir) simp_all
    then show ?thesis using a by simp
  qed
  then show ?thesis using extract_confined_aux [OF assms] by blast
qed

lemmas extraction_eval =
  extract_failed_logs_def process_zip_def world_with_def name_limit_def file_entry_def
  run42_def root_out_def
  joinpath_def Path_def path_root_def path_segments_def path_name_def path_str_def
  endswith_def lower_def lower_char_def ascii_uppercase_def ascii_lowercase_def
  contains_fail_def

lemmas vocabulary_eval =
  log_member_def unreadable_def hit_def member_bytes_def dest_def reached_def scan_error_def
  write_fails_def stops_def stop_error_def stop_trace_def leftover_def

theorem extract_paths_confined_witness:
  "extract_failed_logs (world_with run42 (Inr traversal_zip)) run42 (joinpath root_out ''fail'')
     = ([[''/'', ''out'', ''fail'', ''Evil.LOG'']],
        [[''/'', ''out'', ''fail'', ''Evil.LOG''] \<mapsto> ''echo fail''], None)
   \<and> strictly_inside (joinpath root_out ''fail'') [''/'', ''out'', ''fail'', ''Evil.LOG'']"
proof -
  have e: "extract_failed_logs (world_with run42 (Inr traversal_zip)) run42 (joinpath root_out ''fail'')
     = ([[''/'', ''out'', ''fail'', ''Evil.LOG'']],
        [[''/'', ''out'', ''fail'', ''Evil.LOG''] \<mapsto> ''echo fail''], None)"
    by (simp add: extraction_eval traversal_zip_def)
  show ?thesis using extract_paths_confined [OF e, of root_out] e by auto
qed





section \<open>What the extraction writes\<close>




lemma cut_at_stop:
  assumes "stops wr out_dir m"
  shows "reached wr out_dir (pre @ m # post) = reached wr out_dir (pre @ [m])
       \<and> scan_error wr out_dir (pre @ m # post) = scan_error wr out_dir (pre @ [m])
       \<and> leftover wr out_dir (pre @ m # post) fs = leftover wr out_dir (pre @ [m]) fs"
proof (induction pre)
  case Nil
  show ?case using scan_stop [OF assms] by simp
next
  case (Cons x pre)
  show ?case
  proof (cases "stops wr out_dir x")
    case True
    show ?thesis using scan_stop [OF True] by simp
  next
    case False
    show ?thesis using scan_go [OF False] Cons by simp
  qed
qed

lemma reached_prefix:
  "stops wr out_dir m \<Longrightarrow> prefix (reached wr out_dir (pre @ [m])) pre"
proof (induction pre)
  case Nil
  then show ?case by (simp add: scan_stop)
next
  case (Cons x pre)
  then show ?case
    by (cases "stops wr out_dir x") (simp_all add: scan_stop scan_go)
qed

lemma stop_after_clean_prefix:
  assumes "\<forall>x \<in> set pre. \<not> stops wr out_dir x" and "stops wr out_dir m"
  shows "reached wr out_dir (pre @ [m]) = pre"
    and "scan_error wr out_dir (pre @ [m]) = stop_error wr out_dir m"
    and "leftover wr out_dir (pre @ [m]) fs = stop_trace wr out_dir m fs"
proof -
  have t: "takeWhile (\<lambda>m. \<not> stops wr out_dir m) (pre @ [m]) = pre"
    using assms by (simp add: takeWhile_append2)
  have d: "dropWhile (\<lambda>m. \<not> stops wr out_dir m) (pre @ [m]) = [m]"
    using assms by (simp add: dropWhile_append2)
  show "reached wr out_dir (pre @ [m]) = pre" unfolding reached_def t ..
  show "scan_error wr out_dir (pre @ [m]) = stop_error wr out_dir m"
    unfolding scan_error_def d by simp
  show "leftover wr out_dir (pre @ [m]) fs = stop_trace wr out_dir m fs"
    unfolding leftover_def d by simp
qed

lemma process_zip_disk:
  assumes "archives w = archives w'" and "write_bytes w = write_bytes w'" and "files w = files w'"
  shows "archives (process_zip root a w) = archives (process_zip root a w')
       \<and> write_bytes (process_zip root a w) = write_bytes (process_zip root a w')
       \<and> files (process_zip root a w) = files (process_zip root a w')"
proof -
  have "extract_failed_logs w a (joinpath root ''fail'') = extract_failed_logs w' a (joinpath root ''fail'')"
    by (simp only: extract_failed_logs_def assms)
  then show ?thesis using assms
    by (auto simp: process_zip_def split: prod.splits option.splits)
qed

lemma run_tasks_disk:
  "archives w = archives w' \<Longrightarrow> write_bytes w = write_bytes w' \<Longrightarrow> files w = files w' \<Longrightarrow>
   files (run_tasks root as w) = files (run_tasks root as w')"
proof (induction as arbitrary: w w')
  case Nil
  then show ?case by simp
next
  case (Cons a as)
  show ?case
    using Cons.IH [of "process_zip root a w" "process_zip root a w'"]
      process_zip_disk [OF Cons.prems, of root a] by simp
qed

section \<open>A file that is not an archive\<close>

text \<open>
  Claim C6. When opening the archive raises (the file is no valid container), the engine
  ends with that exception and writes nothing. The task catches it: it returns normally,
  with one line on standard error that names the archive's path and the exception, and
  the files untouched. The pool then serves the archives that follow exactly as it would
  have without the corrupt one.
\<close>
theorem corrupt_archive_is_reported_and_skipped:
  assumes "archives w archive = Inl exc"
  shows "extract_failed_logs w archive out_dir = ([], files w, Some exc)
       \<and> process_zip root archive w =
           w\<lparr>stderr := stderr w @
                [''[ERROR] Failed to process '' @ path_str archive @ '': '' @ exc_str exc]\<rparr>
       \<and> files (process_zip root archive w) = files w
       \<and> run_tasks root (archive # rest) w =
           run_tasks root rest
             (w\<lparr>stderr := stderr w @
                  [''[ERROR] Failed to process '' @ path_str archive @ '': '' @ exc_str exc]\<rparr>)
       \<and> files (run_tasks root (archive # rest) w) = files (run_tasks root rest w)"
proof -
  let ?msg = "''[ERROR] Failed to process '' @ path_str archive @ '': '' @ exc_str exc"
  have a: "extract_failed_logs w archive d = ([], files w, Some exc)" for d
    using assms by (simp add: extract_failed_logs_def)
  have b: "process_zip root archive w = w\<lparr>stderr := stderr w @ [?msg]\<rparr>"
    by (simp add: process_zip_def a)
  have c: "files (process_zip root archive w) = files w" by (simp add: b)
  have d: "run_tasks root (archive # rest) w = run_tasks root rest (w\<lparr>stderr := stderr w @ [?msg]\<rparr>)"
    by (simp add: b)
  have "files (run_tasks root rest (w\<lparr>stderr := stderr w @ [?msg]\<rparr>)) = files (run_tasks root rest w)"
    by (rule run_tasks_disk) simp_all
  then show ?thesis using a b c d by simp
qed

theorem corrupt_archive_is_reported_and_skipped_witness:
  "process_zip root_out run42 (world_with run42 (Inl (BadZipFile ''File is not a zip file'')))
     = (world_with run42 (Inl (BadZipFile ''File is not a zip file'')))
         \<lparr>stderr := [''[ERROR] Failed to process /watch/run42.zip: File is not a zip file'']\<rparr>
   \<and> files (process_zip root_out run42
               (world_with run42 (Inl (BadZipFile ''File is not a zip file'')))) = Map.empty"
proof -
  let ?w = "world_with run42 (Inl (BadZipFile ''File is not a zip file''))"
  have a: "archives ?w run42 = Inl (BadZipFile ''File is not a zip file'')"
    by (simp add: world_with_def)
  have s: "stderr ?w = []" "files ?w = Map.empty" by (simp_all add: world_with_def)
  have p: "path_str run42 = ''/watch/run42.zip''" by (simp add: path_str_def run42_def)
  note t = corrupt_archive_is_reported_and_skipped [OF a, of "[]" root_out "[]"]
  from t have "process_zip root_out run42 ?w =
      ?w\<lparr>stderr := stderr ?w @
           [''[ERROR] Failed to process '' @ path_str run42 @ '': '' @
            exc_str (BadZipFile ''File is not a zip file'')]\<rparr>" by blast
  moreover from t have "files (process_zip root_out run42 ?w) = files ?w" by blast
  ultimately show ?thesis by (simp add: s p)
qed

section \<open>An unreadable member\<close>

text \<open>
  Claim C7, as amended. When a member that passes the name filter cannot be read, the
  exception ends the scan of that archive. The result is that of the archive cut off after
  this member, so none of the members after it is looked at; the scan ends with an
  exception; the paths yielded belong to qualifying members before it, in order; and the
  task catches the exception and prints one line with the archive's path. When no write
  before it raises, the artifacts of all qualifying members before it stay written and the
  exception printed is the one of the read.
\<close>
theorem unreadable_member_aborts_the_archive:
  assumes "archives w archive = Inr (pre @ m # post)"
      and "\<forall>x \<in> set pre. \<not> unreadable x"
      and "log_member m"
      and "data m = Inl exc"
  shows "extract_failed_logs w archive out_dir
           = scan_members (write_bytes w) out_dir (pre @ [m]) (files w)
       \<and> (\<exists>ys fs' e. extract_failed_logs w archive out_dir = (ys, fs', Some e)
              \<and> prefix ys (map (dest out_dir) (filter hit pre)))
       \<and> (\<exists>fs' e. process_zip root archive w =
              w\<lparr>files := fs',
                stderr := stderr w @
                  [''[ERROR] Failed to process '' @ path_str archive @ '': '' @ exc_str e]\<rparr>)
       \<and> ((\<forall>x \<in> set pre. \<not> write_fails (write_bytes w) out_dir x) \<longrightarrow>
            extract_failed_logs w archive out_dir =
              (map (dest out_dir) (filter hit pre),
               write_all out_dir (filter hit pre) (files w),
               Some exc))
       \<and> ((\<forall>x \<in> set pre. \<not> write_fails (write_bytes w) (joinpath root ''fail'') x) \<longrightarrow>
            process_zip root archive w =
              w\<lparr>files := write_all (joinpath root ''fail'') (filter hit pre) (files w),
                stderr := stderr w @
                  [''[ERROR] Failed to process '' @ path_str archive @ '': '' @ exc_str exc]\<rparr>)"
proof -
  let ?wr = "write_bytes w"
  have u: "unreadable m" using assms(3,4) by (simp add: unreadable_def)
  have st: "stops ?wr d m" for d using u by (simp add: stops_def)
  have E: "extract_failed_logs w archive d =
      (map (dest d) (filter hit (reached ?wr d (pre @ [m]))),
       leftover ?wr d (pre @ [m]) (write_all d (filter hit (reached ?wr d (pre @ [m]))) (files w)),
       scan_error ?wr d (pre @ [m]))" for d
    using extract_char [OF assms(1), of d] cut_at_stop [OF st, of d pre post] by simp
  have c1: "extract_failed_logs w archive out_dir
           = scan_members ?wr out_dir (pre @ [m]) (files w)"
    unfolding E by (simp add: scan_members_char)
  have ex: "\<exists>e. scan_error ?wr d (pre @ [m]) = Some e" for d
  proof (cases "scan_error ?wr d (pre @ [m])")
    case None
    from scan_error_none [OF None] st show ?thesis by simp
  next
    case (Some e)
    then show ?thesis by simp
  qed
  have pf: "prefix (map (dest d) (filter hit (reached ?wr d (pre @ [m]))))
                   (map (dest d) (filter hit pre))" for d
    using reached_prefix [OF st, of d pre] by (intro map_mono_prefix filter_mono_prefix)
  have c2: "\<exists>ys fs' e. extract_failed_logs w archive d = (ys, fs', Some e)
              \<and> prefix ys (map (dest d) (filter hit pre))" for d
    using E [of d] ex [of d] pf [of d] by auto
  have c3: "\<exists>fs' e. process_zip root archive w =
              w\<lparr>files := fs',
                stderr := stderr w @
                  [''[ERROR] Failed to process '' @ path_str archive @ '': '' @ exc_str e]\<rparr>"
  proof -
    from c2 [of "joinpath root ''fail''"] obtain ys fs' e where
      "extract_failed_logs w archive (joinpath root ''fail'') = (ys, fs', Some e)" by blast
    then have "process_zip root archive w =
              w\<lparr>files := fs',
                stderr := stderr w @
                  [''[ERROR] Failed to process '' @ path_str archive @ '': '' @ exc_str e]\<rparr>"
      by (simp add: process_zip_def)
    then show ?thesis by blast
  qed
  have clean: "extract_failed_logs w archive d =
              (map (dest d) (filter hit pre), write_all d (filter hit pre) (files w), Some exc)"
    if "\<forall>x \<in> set pre. \<not> write_fails ?wr d x" for d
  proof -
    have ns: "\<forall>x \<in> set pre. \<not> stops ?wr d x" using that assms(2) by (simp add: stops_def)
    have se: "stop_error ?wr d m = Some exc" using assms(4) by (simp add: stop_error_def)
    have tr: "stop_trace ?wr d m fs = fs" for fs using assms(4) by (simp add: stop_trace_def)
    show ?thesis
      unfolding E stop_after_clean_prefix [OF ns st] se tr ..
  qed
  have c5: "(\<forall>x \<in> set pre. \<not> write_fails ?wr (joinpath root ''fail'') x) \<longrightarrow>
            process_zip root archive w =
              w\<lparr>files := write_all (joinpath root ''fail'') (filter hit pre) (files w),
                stderr := stderr w @
                  [''[ERROR] Failed to process '' @ path_str archive @ '': '' @ exc_str exc]\<rparr>"
    using clean [of "joinpath root ''fail''"] by (simp add: process_zip_def)
  show ?thesis using c1 c2 [of out_dir] c3 clean [of out_dir] c5 by blast
qed

theorem unreadable_member_aborts_the_archive_witness:
  "process_zip root_out run42 (world_with run42 (Inr shadowed_zip))
     = (world_with run42 (Inr shadowed_zip))
         \<lparr>files := [[''/'', ''out'', ''fail'', ''x.log''] \<mapsto> ''fail one''],
           stderr := [''[ERROR] Failed to process /watch/run42.zip: Bad CRC-32 for file bad.log'']\<rparr>"
proof -
  let ?w = "world_with run42 (Inr shadowed_zip)"
  let ?bad = "file_entry ''bad.log'' (Inl (MemberError ''Bad CRC-32 for file bad.log''))"
  have a: "archives ?w run42 =
      Inr ([file_entry ''d1/x.log'' (Inr ''fail one'')] @ ?bad # [file_entry ''d2/x.log'' (Inr ''fail two'')])"
    by (simp add: world_with_def shadowed_zip_def)
  have b: "\<forall>x \<in> set [file_entry ''d1/x.log'' (Inr ''fail one'')]. \<not> unreadable x"
    by (simp add: unreadable_def file_entry_def)
  have c: "log_member ?bad" by (simp add: extraction_eval vocabulary_eval)
  have d: "data ?bad = Inl (MemberError ''Bad CRC-32 for file bad.log'')"
    by (simp add: file_entry_def)
  have h: "hit (file_entry ''d1/x.log'' (Inr ''fail one''))"
    by (simp add: extraction_eval vocabulary_eval)
  have s: "stderr ?w = []" "files ?w = Map.empty" by (simp_all add: world_with_def)
  have p: "path_str run42 = ''/watch/run42.zip''" by (simp add: path_str_def run42_def)
  have j: "joinpath root_out ''fail'' = [''/'', ''out'', ''fail'']" by (simp add: extraction_eval)
  have n: "dest [''/'', ''out'', ''fail''] (file_entry ''d1/x.log'' (Inr ''fail one'')) = [''/'', ''out'', ''fail'', ''x.log'']"
    by (simp add: extraction_eval vocabulary_eval)
  have mb: "member_bytes (file_entry ''d1/x.log'' (Inr ''fail one'')) = ''fail one''"
    by (simp add: member_bytes_def file_entry_def)
  have wf: "\<forall>x \<in> set [file_entry ''d1/x.log'' (Inr ''fail one'')].
              \<not> write_fails (write_bytes ?w) (joinpath root_out ''fail'') x"
    by (simp add: write_fails_def world_with_def name_limit_def j n mb)
  from unreadable_member_aborts_the_archive [OF a b c d, of "[]" root_out] wf
  have "process_zip root_out run42 ?w =
      ?w\<lparr>files := write_all (joinpath root_out ''fail'')
                  (filter hit [file_entry ''d1/x.log'' (Inr ''fail one'')]) (files ?w),
         stderr := stderr ?w @
           [''[ERROR] Failed to process '' @ path_str run42 @ '': '' @
            exc_str (MemberError ''Bad CRC-32 for file bad.log'')]\<rparr>" by blast
  then show ?thesis by (simp add: h s p j n mb)
qed

text \<open>
  Claim C7 as stated fails: \<open>c.log\<close> follows an unreadable member and qualifies, but the
  scan never gets to it and no artifact is produced for it.
\<close>

theorem later_member_not_scanned_counterexample:
  "hit (file_entry ''c.log'' (Inr ''FAIL late''))
   \<and> archives (world_with run42 (Inr broken_middle_zip)) run42
       = Inr [file_entry ''a.log'' (Inr ''fail early''),
              file_entry ''bad.log'' (Inl (MemberError ''Bad CRC-32 for file bad.log'')),
              file_entry ''c.log'' (Inr ''FAIL late'')]
   \<and> files (process_zip root_out run42 (world_with run42 (Inr broken_middle_zip)))
       = [[''/'', ''out'', ''fail'', ''a.log''] \<mapsto> ''fail early'']
   \<and> files (process_zip root_out run42 (world_with run42 (Inr broken_middle_zip)))
        [''/'', ''out'', ''fail'', ''c.log''] = None
   \<and> stderr (process_zip root_out run42 (world_with run42 (Inr broken_middle_zip)))
       = [''[ERROR] Failed to process /watch/run42.zip: Bad CRC-32 for file bad.log'']"
  by (simp add: extraction_eval vocabulary_eval broken_middle_zip_def)

section \<open>The failure predicate\<close>

text \<open>
  Claim C9. With Observer_v3.py the archive \<open>run42.zip\<close> of the scenario gives exactly one
  artifact, \<open>fail/boot.log\<close> with the original bytes, and none for \<open>env.log\<close>;
  Observer_v2.py has the same predicate. The predicate of Observer.py looks for
  \<open>test failed\<close> instead of \<open>fail\<close>: it rejects the bytes of \<open>boot.log\<close>, although
  its docstring promises the substring \<open>fail\<close> in any case.
\<close>
theorem scenario_run42:
  "files (process_zip root_out run42 (world_with run42 (Inr scenario_zip)))
     = [[''/'', ''out'', ''fail'', ''boot.log''] \<mapsto> ''...FAIL: timeout...'']
   \<and> stderr (process_zip root_out run42 (world_with run42 (Inr scenario_zip))) = []
   \<and> contains_fail ''...FAIL: timeout...''
   \<and> \<not> contains_fail ''...OK...''
   \<and> contains ''fail'' (lower ''...FAIL: timeout...'')
   \<and> \<not> contains_fail_v1 ''...FAIL: timeout...''"
  by (simp add: extraction_eval scenario_zip_def contains_fail_v1_def keyword_def)

section \<open>Members that share a base name\<close>




section \<open>Facts about the stability probe\<close>







lemmas handler_eval =
  enqueue_def DEBOUNCE_SECONDS_def default_timeout_def default_poll_interval_def
  wait_until_stable_def wait_loop.simps fresh_handler_def run42_def
  steady_file_def growing_then_steady_def vanishing_file_def

section \<open>The stability gate\<close>



lemma wait_loop_restless:
  assumes "wait_loop f T p sz start now = Some y"
  shows "\<not> (0 < T \<and> 0 \<le> p \<and> start = now \<and> f now = Some sz \<and> t0 \<le> now
            \<and> (\<forall>t\<ge>t0. f t \<noteq> None \<and> f (t + p) \<noteq> f t))"
  using assms
proof (induction f T p sz start now y rule: wait_loop.raw_induct)
  case (1 wl f T p sz start now y)
  show ?case
  proof
    assume c: "0 < T \<and> 0 \<le> p \<and> start = now \<and> f now = Some sz \<and> t0 \<le> now
            \<and> (\<forall>t\<ge>t0. f t \<noteq> None \<and> f (t + p) \<noteq> f t)"
    then have lt: "now - start < T" by simp
    from c have ne: "f (now + p) \<noteq> None" and ch: "f (now + p) \<noteq> f now" by auto
    from ne obtain sz' where s1: "f (now + p) = Some sz'" by blast
    have s2: "sz' \<noteq> sz" using ch s1 c by auto
    note sz' = s1 s2
    have call: "wl f T p sz' (now + p) (now + p) = Some y"
      using "1.hyps" lt sz' by simp
    have call': "wait_loop f T p sz' (now + p) (now + p) = Some y"
      using "1.prems" lt sz' by (subst (asm) wait_loop.simps) simp
    from "1.IH" [OF call call'] c sz' show False by simp
  qed
qed (rule assms)

lemma restless_never_returns:
  assumes "0 < T" and "0 \<le> p" and "\<forall>t\<ge>t0. f t \<noteq> None \<and> f (t + p) \<noteq> f t"
  shows "wait_until_stable f T p t0 = None"
proof -
  from assms(3) obtain sz where sz: "f t0 = Some sz" by auto
  have "wait_loop f T p sz t0 t0 = None"
  proof (cases "wait_loop f T p sz t0 t0")
    case None
    then show ?thesis .
  next
    case (Some y)
    from wait_loop_restless [OF Some, of t0] assms sz show ?thesis by simp
  qed
  then show ?thesis using sz by (simp add: wait_until_stable_def)
qed

section \<open>A file that never rests\<close>

text \<open>
  Claim C5 fails on the code. For a file whose size differs at every poll the timer is
  reset at every poll, so \<open>_wait_until_stable\<close> never returns: it does not give up, and
  \<open>_enqueue\<close> and the thread that called it never get past it.
\<close>
theorem growing_file_never_returns:
  "wait_until_stable (ever_growing run42) default_timeout default_poll_interval 5000 = None
   \<and> enqueue ever_growing run42 (fresh_handler 5000) = None
   \<and> deliver ever_growing [(5000, run42)] (fresh_handler 5000) = None"
proof -
  have g: "\<forall>t\<ge>5000. ever_growing run42 t \<noteq> None
              \<and> ever_growing run42 (t + default_poll_interval) \<noteq> ever_growing run42 t"
    by (auto simp: ever_growing_def default_poll_interval_def)
  have w: "wait_until_stable (ever_growing run42) default_timeout default_poll_interval 5000 = None"
    by (rule restless_never_returns [OF _ _ g]) (simp_all add: default_timeout_def default_poll_interval_def)
  have e: "enqueue ever_growing run42 (fresh_handler 5000) = None"
    using w by (simp add: enqueue_def fresh_handler_def DEBOUNCE_SECONDS_def)
  have m: "(fresh_handler 5000)\<lparr>clock := max (clock (fresh_handler 5000)) 5000\<rparr> = fresh_handler 5000"
    by (simp add: fresh_handler_def)
  show ?thesis using w e by (simp add: m)
qed

section \<open>Debounce\<close>

text \<open>
  Claim C3 fails on the code. \<open>_enqueue\<close> records the time it started, not the time of
  the submission, and the stability probe in between takes at least the timeout; when the
  next event for the path is handled the recorded time is at least 2000 ms old, so the
  debounce test lets it through. Two notifications 200 ms apart for a file that is still
  growing give two tasks, and so does a notification 100 ms after a submission.
\<close>
theorem duplicate_events_both_submitted:
  "deliver growing_then_steady [(5000, run42), (5200, run42)] (fresh_handler 5000)
     = Some \<lparr>last_processed = [run42 \<mapsto> 7500],
             submitted = [(run42, 7500), (run42, 9500)],
             clock = 9500\<rparr>
   \<and> deliver steady_file [(5000, run42), (7100, run42)] (fresh_handler 5000)
     = Some \<lparr>last_processed = [run42 \<mapsto> 7100],
             submitted = [(run42, 7000), (run42, 9100)],
             clock = 9100\<rparr>"
  by (simp add: handler_eval)

section \<open>Tasks in flight\<close>


lemma enqueue_as_outcome:
  "enqueue env archive h =
     (case enqueue_outcome (env archive)
             (case last_processed h archive of None \<Rightarrow> 0 | Some last_t \<Rightarrow> last_t) (clock h) of
        None \<Rightarrow> None
      | Some Dropped \<Rightarrow> Some h
      | Some (Abandoned t) \<Rightarrow> Some (h\<lparr>clock := t\<rparr>)
      | Some (Submitted t) \<Rightarrow>
          Some (h\<lparr>last_processed := (last_processed h)(archive \<mapsto> clock h),
                  submitted := submitted h @ [(archive, t)],
                  clock := t\<rparr>))"
  by (simp add: enqueue_def enqueue_outcome_def split: option.splits prod.splits)















end
